theory Spec2Isabelle
  imports Complex_Main "HOL-Library.Sublist"
begin

section \<open>Data model\<close>

text \<open>
  The agent registry of \<^verbatim>\<open>multi-agent-orchestration.ts\<close>. The interface declarations
  \<^verbatim>\<open>Agent\<close> and \<^verbatim>\<open>AgentSpecialization\<close> are imported from \<^verbatim>\<open>./types\<close>; their fields are
  the ones of the object literal built by \<^verbatim>\<open>registerAgent\<close>.

  Numbers: \<^verbatim>\<open>currentLoad\<close> starts at 0 and changes by one, so it is an integer
  (\<open>int\<close>, so that a load below zero can be expressed). \<^verbatim>\<open>capacity\<close> is whatever number the
  caller of \<^verbatim>\<open>registerAgent\<close> passes, negative and fractional numbers included, so it is
  a rational number (every finite double is one). A quotient \<^verbatim>\<open>currentLoad / capacity\<close> is
  modelled by the exact quotient. The source computes it in IEEE double precision; the
  two agree in every comparison as long as \<open>0 \<le> currentLoad < capacity\<close> and the capacity
  is a whole number up to \<open>2^26\<close>: two different quotients \<open>a / b\<close> and \<open>c / d\<close> below 1 then
  differ by at least \<open>1 / (b * d) \<ge> 2^-52\<close>, and rounding moves each by at most \<open>2^-54\<close>.
  Outside this range (capacity 0, very large numbers) the order of the doubles can differ,
  and statements that depend on the order carry the range as a hypothesis.
\<close>

datatype AgentStatusType = STARTING | RUNNING | COMPLETED | FAILED | DISCONNECTED

text \<open>Modelled from the spec: the declaration of \<^verbatim>\<open>AgentSpecialization\<close> is not part of the
  sources at hand; the five tags are those the classifier initialises its scores with.\<close>

datatype AgentSpecialization = frontend | backend | database | devops | general

text \<open>Modelled from the spec: the declaration of \<^verbatim>\<open>Agent\<close> is not part of the sources at
  hand; the fields are those written by \<^verbatim>\<open>registerAgent\<close>.\<close>

record Agent =
  agentId :: string
  name :: string
  status :: AgentStatusType
  specialization :: AgentSpecialization
  capacity :: rat
  currentLoad :: int

datatype Priority = low | medium | high

datatype WorkItemStatus = pending | in_progress | completed | failed

record WorkItem =
  itemId :: string
  title :: string
  description :: string
  priority :: Priority
  itemStatus :: WorkItemStatus
  createdAt :: int

text \<open>
  The state of a \<^verbatim>\<open>MultiAgentOrchestrationImpl\<close>: the array \<^verbatim>\<open>this.agents\<close>, the tasks the
  storage provider returns for the keys \<^verbatim>\<open>task_<id>\<close> (\<open>None\<close> where it returns
  \<^verbatim>\<open>null\<close>), and the lines written by \<^verbatim>\<open>console.warn\<close>. An agent object is identified
  by its position in \<^verbatim>\<open>this.agents\<close>: the arrays that \<^verbatim>\<open>balanceLoad\<close> and
  \<^verbatim>\<open>findBestAgentForTask\<close> derive from it hold references to the same objects and are
  modelled as lists of positions. The field \<open>specializations\<close> is the pattern table of
  the \<^verbatim>\<open>AgentSpecializationManager\<close> the orchestration holds, a \<^verbatim>\<open>Map\<close> in insertion
  order. \<^verbatim>\<open>saveAgents\<close> catches every storage failure, so it
  changes neither the registry nor the control flow and is left out.
\<close>

record Orchestration =
  agents :: "Agent list"
  taskStore :: "string \<Rightarrow> WorkItem option"
  specializations :: "(AgentSpecialization \<times> string list) list"
  warnings :: "string list"

datatype error =
    AgentNotFound string
  | AgentAtCapacity string
  | TaskNotFound string
  | NoAvailableAgents AgentSpecialization
  | ReduceOfEmptyArray

section \<open>Sorting and reducing, as the array methods do\<close>

text \<open>
  \<^verbatim>\<open>Array.prototype.sort\<close> with a comparator is stable; \<open>cmp a b\<close> negative or zero
  leaves \<open>a\<close> before \<open>b\<close>.
\<close>

fun insertBy :: "('a \<Rightarrow> 'a \<Rightarrow> rat) \<Rightarrow> 'a \<Rightarrow> 'a list \<Rightarrow> 'a list" where
  "insertBy cmp x [] = [x]"
| "insertBy cmp x (y # ys) = (if cmp x y \<le> 0 then x # y # ys else y # insertBy cmp x ys)"

definition sortBy :: "('a \<Rightarrow> 'a \<Rightarrow> rat) \<Rightarrow> 'a list \<Rightarrow> 'a list" where
  "sortBy cmp xs = foldr (insertBy cmp) xs []"

text \<open>\<^verbatim>\<open>Array.prototype.reduce\<close> without an initial value throws on an empty array.\<close>

fun reduce :: "('a \<Rightarrow> 'a \<Rightarrow> 'a) \<Rightarrow> 'a list \<Rightarrow> error + 'a" where
  "reduce f [] = Inl ReduceOfEmptyArray"
| "reduce f (x # xs) = Inr (foldl f x xs)"

section \<open>The load balancer of the orchestration\<close>

definition loadPercentage :: "Agent \<Rightarrow> rat" where
  "loadPercentage a = of_int (currentLoad a) / capacity a"

definition incrementLoad :: "nat \<Rightarrow> Agent list \<Rightarrow> Agent list" where
  "incrementLoad i ags = ags[i := (ags ! i)\<lparr>currentLoad := currentLoad (ags ! i) + 1\<rparr>]"

definition decrementLoad :: "nat \<Rightarrow> Agent list \<Rightarrow> Agent list" where
  "decrementLoad i ags = ags[i := (ags ! i)\<lparr>currentLoad := currentLoad (ags ! i) - 1\<rparr>]"

definition mostUnderloaded :: "Agent list \<Rightarrow> nat list \<Rightarrow> error + nat" where
  "mostUnderloaded ags underloaded =
     reduce (\<lambda>prev curr.
        if loadPercentage (ags ! prev) \<le> loadPercentage (ags ! curr) then prev else curr)
       underloaded"

text \<open>
  The inner loop \<^verbatim>\<open>for (let i = 0; i < excessLoad; i++)\<close> for the overloaded agent at
  position \<open>ov\<close>; the first argument counts the iterations that remain (the loop runs
  for \<open>i = 0, 1, ...\<close> below \<open>excessLoad\<close>, that is \<open>\<lceil>excessLoad\<rceil>\<close> times). It returns the
  list of underloaded agents that is left and the agents as mutated so far; a thrown
  error keeps the mutations made before it. \<^verbatim>\<open>break\<close> leaves this loop only.
\<close>

fun moveTasks :: "nat \<Rightarrow> nat \<Rightarrow> nat list \<Rightarrow> Agent list \<Rightarrow> (error + nat list) \<times> Agent list" where
  "moveTasks 0 ov underloaded ags = (Inr underloaded, ags)"
| "moveTasks (Suc n) ov underloaded ags =
     (case mostUnderloaded ags underloaded of
        Inl e \<Rightarrow> (Inl e, ags)
      | Inr m \<Rightarrow>
          (let ags' = incrementLoad m (decrementLoad ov ags) in
           if of_int (currentLoad (ags' ! m)) \<ge> capacity (ags' ! m) then
             (let underloaded' = remove1 m underloaded in
              if underloaded' = [] then (Inr underloaded', ags')
              else moveTasks n ov underloaded' ags')
           else moveTasks n ov underloaded ags'))"

text \<open>The outer loop \<^verbatim>\<open>for (const overloadedAgent of overloadedAgents)\<close>.\<close>

fun redistribute :: "nat list \<Rightarrow> nat list \<Rightarrow> Agent list \<Rightarrow> (error + nat list) \<times> Agent list" where
  "redistribute [] underloaded ags = (Inr underloaded, ags)"
| "redistribute (ov # ovs) underloaded ags =
     (let excessLoad = of_int (currentLoad (ags ! ov)) - capacity (ags ! ov) in
      case moveTasks (nat \<lceil>excessLoad\<rceil>) ov underloaded ags of
        (Inl e, ags') \<Rightarrow> (Inl e, ags')
      | (Inr underloaded', ags') \<Rightarrow> redistribute ovs underloaded' ags')"

definition sortedAgents :: "Agent list \<Rightarrow> nat list" where
  "sortedAgents ags =
     sortBy (\<lambda>a b. loadPercentage (ags ! a) - loadPercentage (ags ! b)) [0..<length ags]"

definition cannotBalance :: string where
  "cannotBalance = ''Cannot balance load: all agents are at or over capacity''"

definition balanceLoad :: "Orchestration \<Rightarrow> (error + unit) \<times> Orchestration" where
  "balanceLoad s =
     (let ags = agents s;
          overloadedAgents = filter (\<lambda>a. of_int (currentLoad (ags ! a)) > capacity (ags ! a)) (sortedAgents ags)
      in if length overloadedAgents = 0 then (Inr (), s)
         else
           (let underloadedAgents =
                  filter (\<lambda>a. of_int (currentLoad (ags ! a)) < capacity (ags ! a)) (sortedAgents ags)
            in if length underloadedAgents = 0
               then (Inr (), s\<lparr>warnings := warnings s @ [cannotBalance]\<rparr>)
               else
                 (case redistribute overloadedAgents underloadedAgents ags of
                    (Inl e, ags') \<Rightarrow> (Inl e, s\<lparr>agents := ags'\<rparr>)
                  | (Inr _, ags') \<Rightarrow> (Inr (), s\<lparr>agents := ags'\<rparr>))))"


section \<open>The specialization classifier\<close>

text \<open>
  Strings are ASCII texts; \<^verbatim>\<open>toLowerCase\<close> maps \<open>A\<close> to \<open>Z\<close> onto \<open>a\<close> to \<open>z\<close>.
\<close>

definition toLowerChar :: "char \<Rightarrow> char" where
  "toLowerChar c =
     (let n = (of_char c :: nat) in if 65 \<le> n \<and> n \<le> 90 then char_of (n + 32) else c)"

definition toLowerCase :: "string \<Rightarrow> string" where
  "toLowerCase s = map toLowerChar s"

fun includesStr :: "string \<Rightarrow> string \<Rightarrow> bool" where
  "includesStr [] p = (p = [])"
| "includesStr (c # cs) p = (prefix p (c # cs) \<or> includesStr cs p)"

definition startsWith :: "string \<Rightarrow> string \<Rightarrow> bool" where
  "startsWith s p = prefix p s"

definition endsWith :: "string \<Rightarrow> string \<Rightarrow> bool" where
  "endsWith s p = prefix (rev p) (rev s)"

definition defaultSpecializations :: "(AgentSpecialization \<times> string list) list" where
  "defaultSpecializations =
    [(frontend,
       [''*.html'', ''*.css'', ''*.scss'', ''*.js'', ''*.jsx'', ''*.ts'', ''*.tsx'',
        ''react'', ''vue'', ''angular'', ''svelte'', ''webpack'', ''babel'', ''eslint'',
        ''ui'', ''ux'', ''responsive'', ''mobile'', ''desktop'', ''web'']),
     (backend,
       [''*.js'', ''*.ts'', ''*.py'', ''*.java'', ''*.go'', ''*.rb'', ''*.php'', ''*.cs'',
        ''api'', ''rest'', ''graphql'', ''server'', ''endpoint'', ''controller'',
        ''middleware'', ''authentication'', ''authorization'', ''security'']),
     (database,
       [''*.sql'', ''*.prisma'', ''*.schema'', ''migration'',
        ''database'', ''db'', ''sql'', ''nosql'', ''mongodb'', ''postgres'', ''mysql'',
        ''query'', ''index'', ''transaction'', ''orm'', ''entity'', ''model'']),
     (devops,
       [''Dockerfile'', ''docker-compose.yml'', ''*.yaml'', ''*.yml'',
        ''kubernetes'', ''k8s'', ''helm'', ''terraform'', ''ansible'',
        ''ci'', ''cd'', ''pipeline'', ''deploy'', ''build'', ''test'',
        ''monitoring'', ''logging'', ''metrics'', ''alert''])]"

text \<open>
  The score table is a \<^verbatim>\<open>Map\<close> with the five tags as keys, set in the order frontend,
  backend, database, devops, general; \<^verbatim>\<open>set\<close> on a key that is present keeps its place.
  It is modelled as a function on the tags, iterated in that order.
\<close>

definition scorePattern :: "string \<Rightarrow> AgentSpecialization \<Rightarrow> (AgentSpecialization \<Rightarrow> int) \<Rightarrow> string
    \<Rightarrow> (AgentSpecialization \<Rightarrow> int)" where
  "scorePattern lowerDescription sp scores pattern =
     (if includesStr lowerDescription (toLowerCase pattern) then scores(sp := scores sp + 1)
      else scores)"

definition scoreDescription :: "(AgentSpecialization \<times> string list) list \<Rightarrow> string
    \<Rightarrow> (AgentSpecialization \<Rightarrow> int) \<Rightarrow> (AgentSpecialization \<Rightarrow> int)" where
  "scoreDescription table descr scores =
     (let lowerDescription = toLowerCase descr in
      foldl (\<lambda>sc (sp, patterns). foldl (scorePattern lowerDescription sp) sc patterns)
        scores table)"

definition scoreFilePattern :: "string \<Rightarrow> AgentSpecialization \<Rightarrow> (AgentSpecialization \<Rightarrow> int) \<Rightarrow> string
    \<Rightarrow> (AgentSpecialization \<Rightarrow> int)" where
  "scoreFilePattern lowerFile sp scores pattern =
     (if startsWith pattern ''*.'' then
        (let extension = drop 1 pattern in
         if endsWith lowerFile extension then scores(sp := scores sp + 2) else scores)
      else if includesStr lowerFile (toLowerCase pattern) then scores(sp := scores sp + 1)
      else scores)"

definition scoreFile :: "(AgentSpecialization \<times> string list) list
    \<Rightarrow> (AgentSpecialization \<Rightarrow> int) \<Rightarrow> string \<Rightarrow> (AgentSpecialization \<Rightarrow> int)" where
  "scoreFile table scores file =
     (let lowerFile = toLowerCase file in
      foldl (\<lambda>sc (sp, patterns). foldl (scoreFilePattern lowerFile sp) sc patterns)
        scores table)"

definition scoreFiles :: "(AgentSpecialization \<times> string list) list \<Rightarrow> string list
    \<Rightarrow> (AgentSpecialization \<Rightarrow> int) \<Rightarrow> (AgentSpecialization \<Rightarrow> int)" where
  "scoreFiles table files scores = foldl (scoreFile table) scores files"

definition taskScores :: "(AgentSpecialization \<times> string list) list \<Rightarrow> string \<Rightarrow> string list
    \<Rightarrow> (AgentSpecialization \<Rightarrow> int)" where
  "taskScores table descr files = scoreFiles table files (scoreDescription table descr (\<lambda>_. 0))"

definition bestOf :: "(AgentSpecialization \<Rightarrow> int) \<Rightarrow> AgentSpecialization" where
  "bestOf scores =
     fst (foldl (\<lambda>(bestSpecialization, maxScore) sp.
                   if scores sp > maxScore then (sp, scores sp)
                   else (bestSpecialization, maxScore))
            (general, 0) [frontend, backend, database, devops, general])"

definition determineSpecialization :: "(AgentSpecialization \<times> string list) list \<Rightarrow> string
    \<Rightarrow> string list \<Rightarrow> AgentSpecialization" where
  "determineSpecialization table descr files = bestOf (taskScores table descr files)"

subsection \<open>File names in a task description\<close>

text \<open>
  \<^verbatim>\<open>description.match(/\b[\w-]+\.[a-z]{2,4}\b/g)\<close>: all matches, left to right, without
  overlap. At a position the greedy run of \<^verbatim>\<open>[\w-]\<close> must be followed by a dot (a shorter
  run is followed by one of its own characters), and the run of \<^verbatim>\<open>[a-z]\<close> after the dot
  must have two to four letters and end at a word boundary (a shorter part of it is
  followed by a letter).
\<close>

definition isWordChar :: "char \<Rightarrow> bool" where
  "isWordChar c =
     (let n = (of_char c :: nat) in
      (48 \<le> n \<and> n \<le> 57) \<or> (65 \<le> n \<and> n \<le> 90) \<or> n = 95 \<or> (97 \<le> n \<and> n \<le> 122))"

definition isNameChar :: "char \<Rightarrow> bool" where
  "isNameChar c = (isWordChar c \<or> c = CHR ''-'')"

definition isLowerLetter :: "char \<Rightarrow> bool" where
  "isLowerLetter c = (let n = (of_char c :: nat) in 97 \<le> n \<and> n \<le> 122)"

definition wordBefore :: "char option \<Rightarrow> bool" where
  "wordBefore prev = (case prev of None \<Rightarrow> False | Some c \<Rightarrow> isWordChar c)"

definition wordAt :: "string \<Rightarrow> bool" where
  "wordAt s = (case s of [] \<Rightarrow> False | c # _ \<Rightarrow> isWordChar c)"

definition fileMatchAt :: "char option \<Rightarrow> string \<Rightarrow> string option" where
  "fileMatchAt prev s =
     (let stem = takeWhile isNameChar s; rest = dropWhile isNameChar s in
      if wordBefore prev = wordAt s \<or> stem = [] then None
      else case rest of
             [] \<Rightarrow> None
           | d # rest' \<Rightarrow>
               (let ext = takeWhile isLowerLetter rest'; after = dropWhile isLowerLetter rest' in
                if d = CHR ''.'' \<and> 2 \<le> length ext \<and> length ext \<le> 4 \<and> \<not> wordAt after
                then Some (stem @ d # ext) else None))"

fun fileMatchesFrom :: "char option \<Rightarrow> nat \<Rightarrow> string \<Rightarrow> string list" where
  "fileMatchesFrom prev skip [] = []"
| "fileMatchesFrom prev skip (c # cs) =
     (if skip > 0 then fileMatchesFrom (Some c) (skip - 1) cs
      else case fileMatchAt prev (c # cs) of
             None \<Rightarrow> fileMatchesFrom (Some c) 0 cs
           | Some m \<Rightarrow> m # fileMatchesFrom (Some c) (length m - 1) cs)"

definition fileMatches :: "string \<Rightarrow> string list" where
  "fileMatches s = fileMatchesFrom None 0 s"

definition determineTaskSpecialization :: "(AgentSpecialization \<times> string list) list \<Rightarrow> WorkItem
    \<Rightarrow> AgentSpecialization" where
  "determineTaskSpecialization table task =
     (let files = fileMatches (toLowerCase (description task)) in
      determineSpecialization table (description task) files)"

section \<open>Assignment\<close>

text \<open>\<^verbatim>\<open>this.agents.find(a => a.id === id)\<close>, as the position of the first such agent.\<close>

fun findAgent :: "string \<Rightarrow> Agent list \<Rightarrow> nat option" where
  "findAgent aid [] = None"
| "findAgent aid (a # as) =
     (if agentId a = aid then Some 0 else map_option Suc (findAgent aid as))"

definition isAvailable :: "Agent \<Rightarrow> bool" where
  "isAvailable a = (of_int (currentLoad a) < capacity a \<and> status a = RUNNING)"

definition compareForTask :: "AgentSpecialization \<Rightarrow> Agent \<Rightarrow> Agent \<Rightarrow> rat" where
  "compareForTask sp a b =
     (if specialization a = sp \<and> specialization b \<noteq> sp then - 1
      else if specialization a \<noteq> sp \<and> specialization b = sp then 1
      else loadPercentage a - loadPercentage b)"

definition findBestAgentForTask :: "Agent list \<Rightarrow> AgentSpecialization \<Rightarrow> error + nat" where
  "findBestAgentForTask ags sp =
     (let availableAgents =
            filter (\<lambda>a. (specialization (ags ! a) = sp \<or> specialization (ags ! a) = general)
                        \<and> isAvailable (ags ! a)) [0..<length ags]
      in if length availableAgents = 0 then
           (let anyAvailableAgents = filter (\<lambda>a. isAvailable (ags ! a)) [0..<length ags]
            in if length anyAvailableAgents = 0 then Inl (NoAvailableAgents sp)
               else Inr (sortBy (\<lambda>a b. loadPercentage (ags ! a) - loadPercentage (ags ! b))
                           anyAvailableAgents ! 0))
         else Inr (sortBy (\<lambda>a b. compareForTask sp (ags ! a) (ags ! b)) availableAgents ! 0))"

definition assignExplicit :: "string \<Rightarrow> Orchestration \<Rightarrow> (error + Agent) \<times> Orchestration" where
  "assignExplicit aid s =
     (case findAgent aid (agents s) of
        None \<Rightarrow> (Inl (AgentNotFound aid), s)
      | Some i \<Rightarrow>
          if of_int (currentLoad (agents s ! i)) \<ge> capacity (agents s ! i)
          then (Inl (AgentAtCapacity aid), s)
          else (let ags' = incrementLoad i (agents s) in (Inr (ags' ! i), s\<lparr>agents := ags'\<rparr>)))"

definition assignAuto :: "string \<Rightarrow> Orchestration \<Rightarrow> (error + Agent) \<times> Orchestration" where
  "assignAuto taskId s =
     (case taskStore s taskId of
        None \<Rightarrow> (Inl (TaskNotFound taskId), s)
      | Some task \<Rightarrow>
          (case findBestAgentForTask (agents s)
                  (determineTaskSpecialization (specializations s) task) of
             Inl e \<Rightarrow> (Inl e, s)
           | Inr i \<Rightarrow>
               (let ags' = incrementLoad i (agents s) in (Inr (ags' ! i), s\<lparr>agents := ags'\<rparr>))))"

text \<open>\<^verbatim>\<open>if (agentId)\<close> takes the second branch for a missing and for an empty id.\<close>

definition assignTask :: "string \<Rightarrow> string option \<Rightarrow> Orchestration
    \<Rightarrow> (error + Agent) \<times> Orchestration" where
  "assignTask taskId agentIdOpt s =
     (case agentIdOpt of
        None \<Rightarrow> assignAuto taskId s
      | Some aid \<Rightarrow> if aid \<noteq> [] then assignExplicit aid s else assignAuto taskId s)"

section \<open>Registration, status and completion\<close>

text \<open>
  The id is \<^verbatim>\<open>agent-${Date.now()}-${Math.random().toString(36).substring(2, 7)}\<close>; the
  two generated parts are arguments here.
\<close>

definition registerAgent :: "string \<Rightarrow> string \<Rightarrow> string \<Rightarrow> AgentSpecialization \<Rightarrow> rat
    \<Rightarrow> Orchestration \<Rightarrow> Agent \<times> Orchestration" where
  "registerAgent stamp rnd nm sp cap s =
     (let agent = \<lparr>agentId = ''agent-'' @ stamp @ ''-'' @ rnd, name = nm, status = STARTING,
                    specialization = sp, capacity = cap, currentLoad = 0\<rparr>
      in (agent, s\<lparr>agents := agents s @ [agent]\<rparr>))"

definition updateAgentStatus :: "string \<Rightarrow> AgentStatusType \<Rightarrow> Orchestration
    \<Rightarrow> (error + Agent) \<times> Orchestration" where
  "updateAgentStatus aid st s =
     (case findAgent aid (agents s) of
        None \<Rightarrow> (Inl (AgentNotFound aid), s)
      | Some i \<Rightarrow>
          (let ags' = (agents s)[i := (agents s ! i)\<lparr>status := st\<rparr>]
           in (Inr (ags' ! i), s\<lparr>agents := ags'\<rparr>)))"

definition completeTask :: "string \<Rightarrow> string \<Rightarrow> Orchestration
    \<Rightarrow> (error + Agent) \<times> Orchestration" where
  "completeTask aid taskId s =
     (case findAgent aid (agents s) of
        None \<Rightarrow> (Inl (AgentNotFound aid), s)
      | Some i \<Rightarrow>
          (let ags' = (if currentLoad (agents s ! i) > 0 then decrementLoad i (agents s)
                       else agents s)
           in (Inr (ags' ! i), s\<lparr>agents := ags'\<rparr>)))"

text \<open>A caller's sequence of calls; a call that throws leaves the state as it is then.\<close>

datatype operation =
    RegisterAgent string string string AgentSpecialization rat
  | AssignTask string "string option"
  | CompleteTask string string
  | BalanceLoad
  | UpdateAgentStatus string AgentStatusType

fun perform :: "Orchestration \<Rightarrow> operation \<Rightarrow> Orchestration" where
  "perform s (RegisterAgent stamp rnd nm sp cap) = snd (registerAgent stamp rnd nm sp cap s)"
| "perform s (AssignTask taskId agentIdOpt) = snd (assignTask taskId agentIdOpt s)"
| "perform s (CompleteTask aid taskId) = snd (completeTask aid taskId s)"
| "perform s BalanceLoad = snd (balanceLoad s)"
| "perform s (UpdateAgentStatus aid st) = snd (updateAgentStatus aid st s)"

definition performAll :: "Orchestration \<Rightarrow> operation list \<Rightarrow> Orchestration" where
  "performAll s ops = foldl perform s ops"

section \<open>Notation for the statements\<close>

definition totalLoad :: "Agent list \<Rightarrow> int" where
  "totalLoad ags = (\<Sum>a\<leftarrow>ags. currentLoad a)"

definition agentWith :: "string \<Rightarrow> AgentStatusType \<Rightarrow> AgentSpecialization \<Rightarrow> rat \<Rightarrow> int \<Rightarrow> Agent" where
  "agentWith i st sp cap ld =
     \<lparr>agentId = i, name = i, status = st, specialization = sp, capacity = cap, currentLoad = ld\<rparr>"

definition registryOf :: "Agent list \<Rightarrow> Orchestration" where
  "registryOf ags =
     \<lparr>agents = ags, taskStore = (\<lambda>_. None), specializations = defaultSpecializations,
      warnings = []\<rparr>"

definition registryWith :: "Agent list \<Rightarrow> (string \<Rightarrow> WorkItem option) \<Rightarrow> Orchestration" where
  "registryWith ags store =
     \<lparr>agents = ags, taskStore = store, specializations = defaultSpecializations, warnings = []\<rparr>"

definition taskAbout :: "string \<Rightarrow> string \<Rightarrow> WorkItem" where
  "taskAbout i d =
     \<lparr>itemId = i, title = i, description = d, priority = medium, itemStatus = pending,
      createdAt = 0\<rparr>"

definition oneTask :: "string \<Rightarrow> WorkItem \<Rightarrow> string \<Rightarrow> WorkItem option" where
  "oneTask i t k = (if k = i then Some t else None)"



text \<open>No load and no capacity is negative.\<close>

definition wellFormed :: "Agent list \<Rightarrow> bool" where
  "wellFormed ags = list_all (\<lambda>a. 0 \<le> currentLoad a \<and> 0 \<le> capacity a) ags"

fun nonNegativeCapacity :: "operation \<Rightarrow> bool" where
  "nonNegativeCapacity (RegisterAgent stamp rnd nm sp cap) = (0 \<le> cap)"
| "nonNegativeCapacity other = True"

section \<open>Facts about the array helpers\<close>

lemma sum_list_map_update:
  "i < length xs \<Longrightarrow> (\<Sum>a\<leftarrow>xs[i := y]. (f a :: int)) = (\<Sum>a\<leftarrow>xs. f a) - f (xs ! i) + f y"
  by (induction xs arbitrary: i) (auto split: nat.splits)

lemma length_incrementLoad [simp]: "length (incrementLoad i ags) = length ags"
  by (simp add: incrementLoad_def)

lemma length_decrementLoad [simp]: "length (decrementLoad i ags) = length ags"
  by (simp add: decrementLoad_def)

lemma totalLoad_incrementLoad:
  "i < length ags \<Longrightarrow> totalLoad (incrementLoad i ags) = totalLoad ags + 1"
  by (simp add: totalLoad_def incrementLoad_def sum_list_map_update)

lemma totalLoad_decrementLoad:
  "i < length ags \<Longrightarrow> totalLoad (decrementLoad i ags) = totalLoad ags - 1"
  by (simp add: totalLoad_def decrementLoad_def sum_list_map_update)

lemma foldl_pick_mem:
  "(\<And>a b. f a b = a \<or> f a b = b) \<Longrightarrow> foldl f x xs \<in> set (x # xs)"
proof (induction xs arbitrary: x)
  case Nil
  then show ?case by simp
next
  case (Cons y ys)
  have "foldl f (f x y) ys \<in> set (f x y # ys)" using Cons by blast
  moreover have "f x y = x \<or> f x y = y" using Cons.prems by blast
  ultimately show ?case by auto
qed

lemma mostUnderloaded_mem:
  "mostUnderloaded ags underloaded = Inr m \<Longrightarrow> m \<in> set underloaded"
proof (cases underloaded)
  case Nil
  assume "mostUnderloaded ags underloaded = Inr m"
  with Nil show ?thesis by (simp add: mostUnderloaded_def)
next
  case (Cons x xs)
  assume "mostUnderloaded ags underloaded = Inr m"
  with Cons have "m = foldl (\<lambda>prev curr.
        if loadPercentage (ags ! prev) \<le> loadPercentage (ags ! curr) then prev else curr) x xs"
    by (simp add: mostUnderloaded_def)
  then show ?thesis using Cons foldl_pick_mem[of "(\<lambda>prev curr.
        if loadPercentage (ags ! prev) \<le> loadPercentage (ags ! curr) then prev else curr)" x xs]
    by auto
qed

lemma mostUnderloaded_error:
  "mostUnderloaded ags underloaded = Inl e \<Longrightarrow> underloaded = [] \<and> e = ReduceOfEmptyArray"
  by (cases underloaded) (auto simp: mostUnderloaded_def)

lemma moveTasks_total:
  "ov < length ags \<Longrightarrow> \<forall>u \<in> set underloaded. u < length ags \<Longrightarrow>
   moveTasks n ov underloaded ags = (r, ags') \<Longrightarrow>
   totalLoad ags' = totalLoad ags \<and> length ags' = length ags
   \<and> (\<forall>us. r = Inr us \<longrightarrow> set us \<subseteq> set underloaded)"
proof (induction n arbitrary: underloaded ags r ags')
  case 0
  then show ?case by auto
next
  case (Suc n)
  show ?case
  proof (cases "mostUnderloaded ags underloaded")
    case (Inl e)
    with Suc.prems show ?thesis by auto
  next
    case (Inr m)
    then have m: "m \<in> set underloaded" by (rule mostUnderloaded_mem)
    then have mlt: "m < length ags" using Suc.prems by auto
    define ags1 where "ags1 = incrementLoad m (decrementLoad ov ags)"
    have t1: "totalLoad ags1 = totalLoad ags" and l1: "length ags1 = length ags"
      using mlt Suc.prems(1)
      by (simp_all add: ags1_def totalLoad_incrementLoad totalLoad_decrementLoad)
    show ?thesis
    proof (cases "capacity (ags1 ! m) \<le> of_int (currentLoad (ags1 ! m))")
      case full: True
      show ?thesis
      proof (cases "remove1 m underloaded = []")
        case True
        with Suc.prems(3) Inr full have "r = Inr [] \<and> ags' = ags1"
          by (auto simp: ags1_def Let_def)
        then show ?thesis using t1 l1 by auto
      next
        case False
        with Suc.prems(3) Inr full
        have rec: "moveTasks n ov (remove1 m underloaded) ags1 = (r, ags')"
          by (auto simp: ags1_def Let_def)
        have "\<forall>u\<in>set (remove1 m underloaded). u < length ags1"
          using Suc.prems(2) l1 by (auto dest: notin_set_remove1)
        from Suc.IH[OF _ this rec] Suc.prems(1) l1 t1
        have "totalLoad ags' = totalLoad ags \<and> length ags' = length ags
              \<and> (\<forall>us. r = Inr us \<longrightarrow> set us \<subseteq> set (remove1 m underloaded))" by auto
        then show ?thesis using set_remove1_subset[of m underloaded] by blast
      qed
    next
      case False
      with Suc.prems(3) Inr
      have rec: "moveTasks n ov underloaded ags1 = (r, ags')"
        by (auto simp: ags1_def Let_def)
      have "\<forall>u\<in>set underloaded. u < length ags1" using Suc.prems(2) l1 by auto
      from Suc.IH[OF _ this rec] Suc.prems(1) l1 t1 show ?thesis by auto
    qed
  qed
qed

lemma redistribute_total:
  "\<forall>ov \<in> set ovl. ov < length ags \<Longrightarrow> \<forall>u \<in> set underloaded. u < length ags \<Longrightarrow>
   redistribute ovl underloaded ags = (r, ags') \<Longrightarrow>
   totalLoad ags' = totalLoad ags \<and> length ags' = length ags"
proof (induction ovl arbitrary: underloaded ags r ags')
  case Nil
  then show ?case by auto
next
  case (Cons ov ovs)
  obtain r1 ags1 where m: "moveTasks (nat \<lceil>of_int (currentLoad (ags ! ov)) - capacity (ags ! ov)\<rceil>) ov underloaded ags = (r1, ags1)"
    by (cases "moveTasks (nat \<lceil>of_int (currentLoad (ags ! ov)) - capacity (ags ! ov)\<rceil>) ov underloaded ags") auto
  have ovlt: "ov < length ags" using Cons.prems(1) by simp
  from moveTasks_total[OF ovlt Cons.prems(2) m]
  have t1: "totalLoad ags1 = totalLoad ags" and l1: "length ags1 = length ags"
    and sub: "\<forall>us. r1 = Inr us \<longrightarrow> set us \<subseteq> set underloaded" by auto
  show ?case
  proof (cases r1)
    case (Inl e)
    with Cons.prems(3) m have "ags' = ags1" by (simp add: Let_def)
    then show ?thesis using t1 l1 by simp
  next
    case (Inr us)
    with Cons.prems(3) m have rec: "redistribute ovs us ags1 = (r, ags')" by (simp add: Let_def)
    have a: "\<forall>ov\<in>set ovs. ov < length ags1" using Cons.prems(1) l1 by simp
    have b: "\<forall>u\<in>set us. u < length ags1" using sub Inr Cons.prems(2) l1 by auto
    from Cons.IH[OF a b rec] t1 l1 show ?thesis by simp
  qed
qed

lemma set_insertBy [simp]: "set (insertBy cmp x ys) = insert x (set ys)"
  by (induction ys) auto

lemma set_sortBy [simp]: "set (sortBy cmp xs) = set xs"
  unfolding sortBy_def by (induction xs) auto

lemma length_insertBy [simp]: "length (insertBy cmp x ys) = Suc (length ys)"
  by (induction ys) auto

lemma length_sortBy [simp]: "length (sortBy cmp xs) = length xs"
  unfolding sortBy_def by (induction xs) auto

lemma sortedAgents_set [simp]: "set (sortedAgents ags) = {..<length ags}"
  by (auto simp: sortedAgents_def)

lemma balanceLoad_total:
  "totalLoad (agents (snd (balanceLoad s))) = totalLoad (agents s)"
proof -
  let ?ov = "filter (\<lambda>a. of_int (currentLoad (agents s ! a)) > capacity (agents s ! a)) (sortedAgents (agents s))"
  let ?un = "filter (\<lambda>a. of_int (currentLoad (agents s ! a)) < capacity (agents s ! a)) (sortedAgents (agents s))"
  obtain r ags' where red: "redistribute ?ov ?un (agents s) = (r, ags')"
    by (cases "redistribute ?ov ?un (agents s)") auto
  have a: "\<forall>ov\<in>set ?ov. ov < length (agents s)" by simp
  have b: "\<forall>u\<in>set ?un. u < length (agents s)" by simp
  from redistribute_total[OF a b red]
  have tl: "totalLoad ags' = totalLoad (agents s)" by simp
  show ?thesis
  proof (cases "?ov = []")
    case True
    then show ?thesis by (simp add: balanceLoad_def Let_def)
  next
    case ov: False
    show ?thesis
    proof (cases "?un = []")
      case True
      with ov show ?thesis by (simp add: balanceLoad_def Let_def)
    next
      case False
      with ov red tl show ?thesis by (cases r) (simp_all add: balanceLoad_def Let_def)
    qed
  qed
qed

lemma filter_sortedAgents_empty:
  "(filter (\<lambda>a. P (ags ! a)) (sortedAgents ags) = []) = (\<forall>a \<in> set ags. \<not> P a)"
  by (auto simp: filter_empty_conv all_set_conv_all_nth)

lemma balanceLoad_none_overloaded:
  "\<forall>a \<in> set (agents s). of_int (currentLoad a) \<le> capacity a \<Longrightarrow> balanceLoad s = (Inr (), s)"
proof -
  assume "\<forall>a \<in> set (agents s). of_int (currentLoad a) \<le> capacity a"
  then have "\<forall>a \<in> set (agents s). \<not> capacity a < of_int (currentLoad a)" by auto
  then have "filter (\<lambda>a. capacity (agents s ! a) < of_int (currentLoad (agents s ! a))) (sortedAgents (agents s)) = []"
    using filter_sortedAgents_empty[of "\<lambda>a. capacity a < of_int (currentLoad a)" "agents s"] by simp
  then show ?thesis by (simp add: balanceLoad_def Let_def)
qed

lemma balanceLoad_none_underloaded:
  assumes "\<forall>a \<in> set (agents s). capacity a \<le> of_int (currentLoad a)"
  shows "fst (balanceLoad s) = Inr () \<and> agents (snd (balanceLoad s)) = agents s
     \<and> ((\<exists>a \<in> set (agents s). capacity a < of_int (currentLoad a))
          \<longrightarrow> snd (balanceLoad s) = s\<lparr>warnings := warnings s @ [cannotBalance]\<rparr>)"
proof -
  from assms have "\<forall>a \<in> set (agents s). \<not> of_int (currentLoad a) < capacity a" by auto
  then have un: "filter (\<lambda>a. of_int (currentLoad (agents s ! a)) < capacity (agents s ! a)) (sortedAgents (agents s)) = []"
    using filter_sortedAgents_empty[of "\<lambda>a. of_int (currentLoad a) < capacity a" "agents s"] by simp
  show ?thesis
  proof (cases "filter (\<lambda>a. capacity (agents s ! a) < of_int (currentLoad (agents s ! a))) (sortedAgents (agents s)) = []")
    case True
    then have "\<forall>a \<in> set (agents s). \<not> capacity a < of_int (currentLoad a)"
      using filter_sortedAgents_empty[of "\<lambda>a. capacity a < of_int (currentLoad a)" "agents s"] by simp
    with True show ?thesis by (auto simp add: balanceLoad_def Let_def)
  next
    case False
    with un show ?thesis by (simp add: balanceLoad_def Let_def)
  qed
qed

section \<open>The rebalance pass\<close>

text \<open>
  C1. Once the last receiver has reached its capacity the pass is meant to stop for the
  current and for all later overloaded agents and to end normally. The \<^verbatim>\<open>break\<close> leaves
  the inner loop only: with two agents over capacity and one free slot, the first agent
  fills the slot, and the pass then calls \<^verbatim>\<open>reduce\<close> on the empty array for the second
  agent, which throws. The agents keep the transfer made before.
\<close>

theorem C1_balanceLoad_throws_after_last_receiver:
  "balanceLoad (registryOf [agentWith ''a'' RUNNING general 1 2,
                            agentWith ''b'' RUNNING general 1 2,
                            agentWith ''c'' RUNNING general 1 0])
   = (Inl ReduceOfEmptyArray,
      registryOf [agentWith ''a'' RUNNING general 1 1,
                  agentWith ''b'' RUNNING general 1 2,
                  agentWith ''c'' RUNNING general 1 1])"
  by (simp add: balanceLoad_def sortedAgents_def sortBy_def registryOf_def agentWith_def
      loadPercentage_def mostUnderloaded_def incrementLoad_def decrementLoad_def Let_def)

text \<open>
  C9. A rebalance pass conserves the total load: the sum of \<^verbatim>\<open>currentLoad\<close> over all
  agents after the pass, whether it ends normally or throws, is the sum before it; and
  each single transfer (one decrement of the overloaded agent, one increment of the
  receiver) leaves the sum as it was, so the sum is the same after every transfer of the
  pass.
\<close>

theorem C9_balanceLoad_conserves_total_load:
  "totalLoad (agents (snd (balanceLoad s))) = totalLoad (agents s)
   \<and> (\<forall>ags ov m. ov < length ags \<and> m < length ags
         \<longrightarrow> totalLoad (incrementLoad m (decrementLoad ov ags)) = totalLoad ags)"
  by (simp add: balanceLoad_total totalLoad_incrementLoad totalLoad_decrementLoad)

theorem C9_balanceLoad_conserves_total_load_witness:
  "totalLoad (agents (snd (balanceLoad
      (registryOf [agentWith ''a'' RUNNING general 2 4, agentWith ''b'' RUNNING general 3 0]))))
     = 4
   \<and> (0::nat) < length [agentWith ''a'' RUNNING general 2 4, agentWith ''b'' RUNNING general 3 0]
   \<and> (1::nat) < length [agentWith ''a'' RUNNING general 2 4, agentWith ''b'' RUNNING general 3 0]
   \<and> totalLoad (incrementLoad 1 (decrementLoad 0
        [agentWith ''a'' RUNNING general 2 4, agentWith ''b'' RUNNING general 3 0])) = 4"
  using C9_balanceLoad_conserves_total_load
    [of "registryOf [agentWith ''a'' RUNNING general 2 4, agentWith ''b'' RUNNING general 3 0]"]
  by (simp add: registryOf_def agentWith_def totalLoad_def)

text \<open>
  C5, as the claim has it: when no agent has \<^verbatim>\<open>currentLoad < capacity\<close> the pass leaves the
  loads unchanged and reports that it cannot balance. A registry whose only agent is
  exactly at capacity has no underloaded agent, and the pass returns at its first check
  (no agent over capacity) without any report.
\<close>

theorem C5_no_report_when_all_at_capacity:
  "warnings (snd (balanceLoad (registryOf [agentWith ''a'' RUNNING general 1 1]))) = []"
  by (simp add: balanceLoad_def sortedAgents_def sortBy_def registryOf_def agentWith_def
      loadPercentage_def Let_def)

text \<open>
  C5, amended. The pass mutates no agent in either terminal case: when no agent has
  \<^verbatim>\<open>currentLoad > capacity\<close> it returns with the whole state unchanged (and reports
  nothing); when no agent has \<^verbatim>\<open>currentLoad < capacity\<close> it ends normally with all agents
  unchanged, and if moreover some agent is over capacity it reports "cannot balance" and
  changes nothing else.
\<close>

theorem C5_balanceLoad_terminal_cases:
  "((\<forall>a \<in> set (agents s). of_int (currentLoad a) \<le> capacity a) \<longrightarrow> balanceLoad s = (Inr (), s))
   \<and> ((\<forall>a \<in> set (agents s). capacity a \<le> of_int (currentLoad a))
        \<longrightarrow> fst (balanceLoad s) = Inr () \<and> agents (snd (balanceLoad s)) = agents s)
   \<and> ((\<forall>a \<in> set (agents s). capacity a \<le> of_int (currentLoad a))
        \<and> (\<exists>a \<in> set (agents s). capacity a < of_int (currentLoad a))
        \<longrightarrow> snd (balanceLoad s) = s\<lparr>warnings := warnings s @ [cannotBalance]\<rparr>)"
  using balanceLoad_none_overloaded[of s] balanceLoad_none_underloaded[of s] by blast

theorem C5_balanceLoad_terminal_cases_witness:
  "balanceLoad (registryOf [agentWith ''a'' RUNNING general 2 1])
     = (Inr (), registryOf [agentWith ''a'' RUNNING general 2 1])
   \<and> fst (balanceLoad (registryOf [agentWith ''a'' RUNNING general 1 2,
                                   agentWith ''b'' RUNNING general 1 1])) = Inr ()
   \<and> snd (balanceLoad (registryOf [agentWith ''a'' RUNNING general 1 2,
                                   agentWith ''b'' RUNNING general 1 1]))
      = (registryOf [agentWith ''a'' RUNNING general 1 2, agentWith ''b'' RUNNING general 1 1])
          \<lparr>warnings := [cannotBalance]\<rparr>"
  using C5_balanceLoad_terminal_cases [of "registryOf [agentWith ''a'' RUNNING general 2 1]"]
    C5_balanceLoad_terminal_cases
      [of "registryOf [agentWith ''a'' RUNNING general 1 2, agentWith ''b'' RUNNING general 1 1]"]
  by (simp add: registryOf_def agentWith_def)

section \<open>Properties of assignment\<close>

lemma findAgent_Some:
  "findAgent aid ags = Some i \<Longrightarrow> i < length ags \<and> agentId (ags ! i) = aid"
  by (induction ags arbitrary: i) (auto split: if_splits)

lemma findAgent_None: "(findAgent aid ags = None) = (aid \<notin> agentId ` set ags)"
  by (induction ags) auto

lemma findAgent_distinct:
  "distinct (map agentId ags) \<Longrightarrow> i < length ags \<Longrightarrow> findAgent (agentId (ags ! i)) ags = Some i"
proof (induction ags arbitrary: i)
  case Nil
  then show ?case by simp
next
  case (Cons a as)
  show ?case
  proof (cases i)
    case 0
    then show ?thesis by simp
  next
    case (Suc j)
    with Cons.prems have j: "j < length as" by simp
    then have "as ! j \<in> set as" by simp
    then have "agentId (as ! j) \<in> agentId ` set as" by (rule imageI)
    with Cons.prems have ne: "agentId a \<noteq> agentId (as ! j)" by auto
    from Cons.prems have "distinct (map agentId as)" by simp
    from Cons.IH[OF this j] ne Suc show ?thesis by simp
  qed
qed

text \<open>
  C4. In a registry with unique agent ids, explicit assignment to an agent whose
  \<^verbatim>\<open>currentLoad >= capacity\<close> fails with the at-capacity error and leaves the whole state,
  that agent's load included, as it was; for an id that no agent has it fails with the
  not-found error, the state unchanged. (An id is given explicitly when it is not the
  empty string: \<^verbatim>\<open>if (agentId)\<close>.)
\<close>

theorem C4_explicit_assignment_to_full_agent:
  assumes "distinct (map agentId (agents s))"
  shows "(\<forall>a \<in> set (agents s). agentId a \<noteq> [] \<and> capacity a \<le> of_int (currentLoad a)
            \<longrightarrow> assignTask taskId (Some (agentId a)) s = (Inl (AgentAtCapacity (agentId a)), s))
       \<and> (\<forall>aid. aid \<noteq> [] \<and> aid \<notin> agentId ` set (agents s)
            \<longrightarrow> assignTask taskId (Some aid) s = (Inl (AgentNotFound aid), s))"
proof (intro conjI ballI allI impI)
  fix a assume a: "a \<in> set (agents s)" and h: "agentId a \<noteq> [] \<and> capacity a \<le> of_int (currentLoad a)"
  from a obtain i where i: "i < length (agents s)" "agents s ! i = a" by (auto simp: in_set_conv_nth)
  with assms have "findAgent (agentId a) (agents s) = Some i" using findAgent_distinct by blast
  with h i show "assignTask taskId (Some (agentId a)) s = (Inl (AgentAtCapacity (agentId a)), s)"
    by (simp add: assignTask_def assignExplicit_def)
next
  fix aid assume h: "aid \<noteq> [] \<and> aid \<notin> agentId ` set (agents s)"
  then have "findAgent aid (agents s) = None" by (simp add: findAgent_None)
  with h show "assignTask taskId (Some aid) s = (Inl (AgentNotFound aid), s)"
    by (simp add: assignTask_def assignExplicit_def)
qed

theorem C4_explicit_assignment_to_full_agent_witness:
  "assignTask ''t'' (Some ''agent-1'') (registryOf [agentWith ''agent-1'' RUNNING general 1 1])
     = (Inl (AgentAtCapacity ''agent-1''), registryOf [agentWith ''agent-1'' RUNNING general 1 1])
   \<and> assignTask ''t'' (Some ''agent-2'') (registryOf [agentWith ''agent-1'' RUNNING general 1 1])
     = (Inl (AgentNotFound ''agent-2''), registryOf [agentWith ''agent-1'' RUNNING general 1 1])"
proof -
  let ?s = "registryOf [agentWith ''agent-1'' RUNNING general 1 1]"
  have d: "distinct (map agentId (agents ?s))" by (simp add: registryOf_def)
  have m: "agentWith ''agent-1'' RUNNING general 1 1 \<in> set (agents ?s)"
    by (simp add: registryOf_def)
  have i: "agentId (agentWith ''agent-1'' RUNNING general 1 1) = ''agent-1''"
    by (simp add: agentWith_def)
  have f: "capacity (agentWith ''agent-1'' RUNNING general 1 1)
            \<le> of_int (currentLoad (agentWith ''agent-1'' RUNNING general 1 1))"
    by (simp add: agentWith_def)
  have n: "''agent-2'' \<notin> agentId ` set (agents ?s)" by (simp add: registryOf_def agentWith_def)
  note t = C4_explicit_assignment_to_full_agent [OF d, of "''t''"]
  from t m i f have "assignTask ''t'' (Some ''agent-1'') ?s = (Inl (AgentAtCapacity ''agent-1''), ?s)"
    by fastforce
  moreover from t n have "assignTask ''t'' (Some ''agent-2'') ?s = (Inl (AgentNotFound ''agent-2''), ?s)"
    by fastforce
  ultimately show ?thesis by simp
qed

lemma assignExplicit_failure: "fst (assignExplicit aid s) = Inl e \<Longrightarrow> snd (assignExplicit aid s) = s"
  by (auto simp: assignExplicit_def Let_def split: option.splits if_splits)

lemma assignAuto_failure: "fst (assignAuto taskId s) = Inl e \<Longrightarrow> snd (assignAuto taskId s) = s"
  by (auto simp: assignAuto_def Let_def split: option.splits sum.splits)

lemma api_is_backend:
  "determineTaskSpecialization defaultSpecializations (taskAbout ''t1'' ''api'') = backend"
  by code_simp

text \<open>
  C10. \<^verbatim>\<open>assignTask\<close> is atomic on failure in both modes: whenever it throws (agent not
  found, agent at capacity, task not found, no available agent), the state it leaves is
  the state it started from.
\<close>

theorem C10_assignTask_failure_keeps_state:
  "fst (assignTask taskId agentIdOpt s) = Inl e \<Longrightarrow> snd (assignTask taskId agentIdOpt s) = s"
  by (auto simp: assignTask_def assignExplicit_failure assignAuto_failure split: option.splits)

theorem C10_assignTask_failure_keeps_state_witness:
  "assignTask ''t1'' (Some ''agent-1'')
      (registryWith [agentWith ''agent-1'' RUNNING general 1 1,
                     agentWith ''agent-2'' STARTING backend 2 0]
         (oneTask ''t1'' (taskAbout ''t1'' ''api'')))
     = (Inl (AgentAtCapacity ''agent-1''),
        registryWith [agentWith ''agent-1'' RUNNING general 1 1,
                      agentWith ''agent-2'' STARTING backend 2 0]
          (oneTask ''t1'' (taskAbout ''t1'' ''api'')))
   \<and> assignTask ''t1'' (Some ''agent-9'')
      (registryWith [agentWith ''agent-1'' RUNNING general 1 1,
                     agentWith ''agent-2'' STARTING backend 2 0]
         (oneTask ''t1'' (taskAbout ''t1'' ''api'')))
     = (Inl (AgentNotFound ''agent-9''),
        registryWith [agentWith ''agent-1'' RUNNING general 1 1,
                      agentWith ''agent-2'' STARTING backend 2 0]
          (oneTask ''t1'' (taskAbout ''t1'' ''api'')))
   \<and> assignTask ''t2'' None
      (registryWith [agentWith ''agent-1'' RUNNING general 1 1,
                     agentWith ''agent-2'' STARTING backend 2 0]
         (oneTask ''t1'' (taskAbout ''t1'' ''api'')))
     = (Inl (TaskNotFound ''t2''),
        registryWith [agentWith ''agent-1'' RUNNING general 1 1,
                      agentWith ''agent-2'' STARTING backend 2 0]
          (oneTask ''t1'' (taskAbout ''t1'' ''api'')))
   \<and> assignTask ''t1'' None
      (registryWith [agentWith ''agent-1'' RUNNING general 1 1,
                     agentWith ''agent-2'' STARTING backend 2 0]
         (oneTask ''t1'' (taskAbout ''t1'' ''api'')))
     = (Inl (NoAvailableAgents backend),
        registryWith [agentWith ''agent-1'' RUNNING general 1 1,
                      agentWith ''agent-2'' STARTING backend 2 0]
          (oneTask ''t1'' (taskAbout ''t1'' ''api'')))"
proof -
  let ?s = "registryWith [agentWith ''agent-1'' RUNNING general 1 1,
                          agentWith ''agent-2'' STARTING backend 2 0]
              (oneTask ''t1'' (taskAbout ''t1'' ''api''))"
  have full: "fst (assignTask ''t1'' (Some ''agent-1'') ?s) = Inl (AgentAtCapacity ''agent-1'')"
    by (simp add: assignTask_def assignExplicit_def registryWith_def agentWith_def)
  have unknown: "fst (assignTask ''t1'' (Some ''agent-9'') ?s) = Inl (AgentNotFound ''agent-9'')"
    by (simp add: assignTask_def assignExplicit_def registryWith_def agentWith_def)
  have notask: "fst (assignTask ''t2'' None ?s) = Inl (TaskNotFound ''t2'')"
    by (simp add: assignTask_def assignAuto_def registryWith_def oneTask_def)
  have "findBestAgentForTask (agents ?s) backend = Inl (NoAvailableAgents backend)"
    by (simp add: findBestAgentForTask_def isAvailable_def registryWith_def agentWith_def Let_def)
  moreover have "taskStore ?s ''t1'' = Some (taskAbout ''t1'' ''api'')"
    by (simp add: registryWith_def oneTask_def)
  moreover have "specializations ?s = defaultSpecializations" by (simp add: registryWith_def)
  ultimately have nobody: "fst (assignTask ''t1'' None ?s) = Inl (NoAvailableAgents backend)"
    by (simp add: assignTask_def assignAuto_def api_is_backend)
  from C10_assignTask_failure_keeps_state [OF full] full
  have 1: "assignTask ''t1'' (Some ''agent-1'') ?s = (Inl (AgentAtCapacity ''agent-1''), ?s)"
    by (simp add: prod_eq_iff)
  from C10_assignTask_failure_keeps_state [OF unknown] unknown
  have 2: "assignTask ''t1'' (Some ''agent-9'') ?s = (Inl (AgentNotFound ''agent-9''), ?s)"
    by (simp add: prod_eq_iff)
  from C10_assignTask_failure_keeps_state [OF notask] notask
  have 3: "assignTask ''t2'' None ?s = (Inl (TaskNotFound ''t2''), ?s)"
    by (simp add: prod_eq_iff)
  from C10_assignTask_failure_keeps_state [OF nobody] nobody
  have 4: "assignTask ''t1'' None ?s = (Inl (NoAvailableAgents backend), ?s)"
    by (simp add: prod_eq_iff)
  from 1 2 3 4 show ?thesis by simp
qed

lemma sortBy_nth0_mem: "xs \<noteq> [] \<Longrightarrow> sortBy cmp xs ! 0 \<in> set xs"
proof -
  assume "xs \<noteq> []"
  then have "0 < length (sortBy cmp xs)" by simp
  then have "sortBy cmp xs ! 0 \<in> set (sortBy cmp xs)" by (rule nth_mem)
  then show ?thesis by simp
qed

lemma findBestAgentForTask_Inr:
  assumes "findBestAgentForTask ags sp = Inr i"
  shows "i < length ags \<and> isAvailable (ags ! i)"
proof -
  let ?av = "filter (\<lambda>a. (specialization (ags ! a) = sp \<or> specialization (ags ! a) = general)
                        \<and> isAvailable (ags ! a)) [0..<length ags]"
  let ?any = "filter (\<lambda>a. isAvailable (ags ! a)) [0..<length ags]"
  show ?thesis
  proof (cases "?av = []")
    case True
    show ?thesis
    proof (cases "?any = []")
      case True
      with \<open>?av = []\<close> assms show ?thesis by (simp add: findBestAgentForTask_def Let_def)
    next
      case False
      with True assms have "i = sortBy (\<lambda>a b. loadPercentage (ags ! a) - loadPercentage (ags ! b)) ?any ! 0"
        by (simp add: findBestAgentForTask_def Let_def)
      with False have "i \<in> set ?any" using sortBy_nth0_mem by blast
      then show ?thesis by simp
    qed
  next
    case False
    with assms have "i = sortBy (\<lambda>a b. compareForTask sp (ags ! a) (ags ! b)) ?av ! 0"
      by (simp add: findBestAgentForTask_def Let_def)
    with False have "i \<in> set ?av" using sortBy_nth0_mem by blast
    then show ?thesis by simp
  qed
qed

lemma findBestAgentForTask_Inl:
  "(\<exists>e. findBestAgentForTask ags sp = Inl e) = (\<forall>a \<in> set ags. \<not> isAvailable a)"
  "findBestAgentForTask ags sp = Inl e \<Longrightarrow> e = NoAvailableAgents sp"
  by (auto simp: findBestAgentForTask_def Let_def filter_empty_conv all_set_conv_all_nth
      split: if_splits)

text \<open>
  C3. For a task that the store holds, auto-assignment (no agent id) returns only an
  agent that was RUNNING with \<^verbatim>\<open>currentLoad < capacity\<close> before its load was incremented,
  and changes nothing but that load; if no RUNNING agent has spare capacity it fails with
  the no-available-agent error and leaves the state unchanged; if one has, it succeeds.
\<close>

theorem C3_auto_assignment_picks_available_agent:
  assumes "taskStore s taskId = Some task"
  shows "(\<forall>a s'. assignTask taskId None s = (Inr a, s')
            \<longrightarrow> (\<exists>i < length (agents s).
                   status (agents s ! i) = RUNNING
                   \<and> of_int (currentLoad (agents s ! i)) < capacity (agents s ! i)
                   \<and> a = (agents s ! i)\<lparr>currentLoad := currentLoad (agents s ! i) + 1\<rparr>
                   \<and> s' = s\<lparr>agents := (agents s)[i := a]\<rparr>))
       \<and> ((\<forall>x \<in> set (agents s). \<not> (status x = RUNNING \<and> of_int (currentLoad x) < capacity x))
            \<longrightarrow> assignTask taskId None s
                = (Inl (NoAvailableAgents (determineTaskSpecialization (specializations s) task)), s))
       \<and> ((\<exists>x \<in> set (agents s). status x = RUNNING \<and> of_int (currentLoad x) < capacity x)
            \<longrightarrow> (\<exists>a s'. assignTask taskId None s = (Inr a, s')))"
proof (intro conjI allI impI)
  fix a s' assume ok: "assignTask taskId None s = (Inr a, s')"
  let ?sp = "determineTaskSpecialization (specializations s) task"
  from ok assms obtain i where i: "findBestAgentForTask (agents s) ?sp = Inr i"
    by (cases "findBestAgentForTask (agents s) ?sp") (auto simp: assignTask_def assignAuto_def)
  then have av: "i < length (agents s) \<and> isAvailable (agents s ! i)"
    by (rule findBestAgentForTask_Inr)
  from ok assms i av
  have "a = (agents s ! i)\<lparr>currentLoad := currentLoad (agents s ! i) + 1\<rparr>
        \<and> s' = s\<lparr>agents := (agents s)[i := a]\<rparr>"
    by (auto simp: assignTask_def assignAuto_def incrementLoad_def Let_def)
  with av show "\<exists>i < length (agents s).
                   status (agents s ! i) = RUNNING
                   \<and> of_int (currentLoad (agents s ! i)) < capacity (agents s ! i)
                   \<and> a = (agents s ! i)\<lparr>currentLoad := currentLoad (agents s ! i) + 1\<rparr>
                   \<and> s' = s\<lparr>agents := (agents s)[i := a]\<rparr>"
    by (auto simp: isAvailable_def)
next
  let ?sp = "determineTaskSpecialization (specializations s) task"
  assume "\<forall>x \<in> set (agents s). \<not> (status x = RUNNING \<and> of_int (currentLoad x) < capacity x)"
  then have "\<forall>a \<in> set (agents s). \<not> isAvailable a" by (auto simp: isAvailable_def)
  then obtain e where e: "findBestAgentForTask (agents s) ?sp = Inl e"
    using findBestAgentForTask_Inl(1)[of "agents s" ?sp] by blast
  then have "e = NoAvailableAgents ?sp" by (rule findBestAgentForTask_Inl(2))
  with e assms show "assignTask taskId None s = (Inl (NoAvailableAgents ?sp), s)"
    by (simp add: assignTask_def assignAuto_def)
next
  let ?sp = "determineTaskSpecialization (specializations s) task"
  assume "\<exists>x \<in> set (agents s). status x = RUNNING \<and> of_int (currentLoad x) < capacity x"
  then have "\<not> (\<forall>a \<in> set (agents s). \<not> isAvailable a)" by (auto simp: isAvailable_def)
  then have "\<not> (\<exists>e. findBestAgentForTask (agents s) ?sp = Inl e)"
    using findBestAgentForTask_Inl(1)[of "agents s" ?sp] by blast
  then obtain i where "findBestAgentForTask (agents s) ?sp = Inr i"
    by (cases "findBestAgentForTask (agents s) ?sp") auto
  with assms show "\<exists>a s'. assignTask taskId None s = (Inr a, s')"
    by (simp add: assignTask_def assignAuto_def Let_def)
qed

theorem C3_auto_assignment_picks_available_agent_witness:
  "fst (assignTask ''t1'' None
          (registryWith [agentWith ''a'' RUNNING general 2 0]
             (oneTask ''t1'' (taskAbout ''t1'' ''api''))))
     = Inr (agentWith ''a'' RUNNING general 2 1)
   \<and> assignTask ''t1'' None
        (registryWith [agentWith ''a'' STARTING general 2 0]
           (oneTask ''t1'' (taskAbout ''t1'' ''api'')))
     = (Inl (NoAvailableAgents backend),
        registryWith [agentWith ''a'' STARTING general 2 0]
          (oneTask ''t1'' (taskAbout ''t1'' ''api'')))"
proof -
  let ?task = "taskAbout ''t1'' ''api''"
  let ?A = "registryWith [agentWith ''a'' RUNNING general 2 0] (oneTask ''t1'' ?task)"
  let ?B = "registryWith [agentWith ''a'' STARTING general 2 0] (oneTask ''t1'' ?task)"
  have tA: "taskStore ?A ''t1'' = Some ?task" by (simp add: registryWith_def oneTask_def)
  have tB: "taskStore ?B ''t1'' = Some ?task" by (simp add: registryWith_def oneTask_def)
  note A = C3_auto_assignment_picks_available_agent [OF tA]
  note B = C3_auto_assignment_picks_available_agent [OF tB]
  have "\<exists>x \<in> set (agents ?A). status x = RUNNING \<and> of_int (currentLoad x) < capacity x"
    by (simp add: registryWith_def agentWith_def)
  with A obtain a s' where r: "assignTask ''t1'' None ?A = (Inr a, s')" by blast
  with A obtain i where "i < length (agents ?A)"
    and "a = (agents ?A ! i)\<lparr>currentLoad := currentLoad (agents ?A ! i) + 1\<rparr>" by blast
  then have "a = agentWith ''a'' RUNNING general 2 1"
    by (simp add: registryWith_def agentWith_def)
  with r have 1: "fst (assignTask ''t1'' None ?A) = Inr (agentWith ''a'' RUNNING general 2 1)"
    by simp
  have "\<forall>x \<in> set (agents ?B). \<not> (status x = RUNNING \<and> of_int (currentLoad x) < capacity x)"
    by (simp add: registryWith_def agentWith_def)
  with B have "assignTask ''t1'' None ?B
      = (Inl (NoAvailableAgents (determineTaskSpecialization (specializations ?B) ?task)), ?B)"
    by blast
  moreover have "specializations ?B = defaultSpecializations" by (simp add: registryWith_def)
  ultimately have 2: "assignTask ''t1'' None ?B = (Inl (NoAvailableAgents backend), ?B)"
    by (simp add: api_is_backend)
  from 1 2 show ?thesis by simp
qed

section \<open>The classifier on the example of the specification\<close>

text \<open>
  C7, as the claim has it: the file \<^verbatim>\<open>schema.sql\<close> wins for database with 2 points against
  1. The database score is not 2.
\<close>

theorem C7_database_score_is_not_two:
  "taskScores defaultSpecializations ''api'' [''schema.sql''] database \<noteq> 2"
  by code_simp

text \<open>
  C7, amended. With the default pattern table, description \<^verbatim>\<open>api\<close> and files
  \<^verbatim>\<open>[schema.sql]\<close> classify as database, with 3 points against 1 for backend: the
  extension pattern \<^verbatim>\<open>*.sql\<close> adds 2 and the keyword pattern \<^verbatim>\<open>sql\<close>, a substring of the
  file name, adds 1.
\<close>

theorem C7_schema_sql_classifies_as_database:
  "determineSpecialization defaultSpecializations ''api'' [''schema.sql''] = database
   \<and> taskScores defaultSpecializations ''api'' [''schema.sql''] database = 3
   \<and> taskScores defaultSpecializations ''api'' [''schema.sql''] backend = 1
   \<and> scoreFilePattern ''schema.sql'' database (\<lambda>_. 0) ''*.sql'' database = 2
   \<and> scoreFilePattern ''schema.sql'' database (\<lambda>_. 0) ''sql'' database = 1"
  by code_simp

section \<open>The choice among eligible agents\<close>



lemma sortBy_Nil_iff [simp]: "(sortBy cmp xs = []) = (xs = [])"
  by (cases xs) (auto simp: sortBy_def, metis length_insertBy length_0_conv nat.distinct(1))





section \<open>Loads stay non-negative\<close>

lemma transfer_nth:
  "ov < length ags \<Longrightarrow> m < length ags \<Longrightarrow> j < length ags \<Longrightarrow>
   capacity (incrementLoad m (decrementLoad ov ags) ! j) = capacity (ags ! j)
   \<and> (if j = ov then currentLoad (ags ! j) - 1 else currentLoad (ags ! j))
       \<le> currentLoad (incrementLoad m (decrementLoad ov ags) ! j)"
  by (simp add: incrementLoad_def decrementLoad_def nth_list_update)

lemma moveTasks_lower:
  "ov < length ags \<Longrightarrow> \<forall>u \<in> set underloaded. u < length ags \<Longrightarrow>
   moveTasks n ov underloaded ags = (r, ags') \<Longrightarrow>
   length ags' = length ags
   \<and> (\<forall>j < length ags. capacity (ags' ! j) = capacity (ags ! j)
         \<and> (if j = ov then currentLoad (ags ! j) - int n else currentLoad (ags ! j))
             \<le> currentLoad (ags' ! j))"
proof (induction n arbitrary: underloaded ags r ags')
  case 0
  then show ?case by auto
next
  case (Suc n)
  show ?case
  proof (cases "mostUnderloaded ags underloaded")
    case (Inl e)
    with Suc.prems show ?thesis by auto
  next
    case (Inr m)
    let ?G = ?thesis
    from Inr have "m \<in> set underloaded" by (rule mostUnderloaded_mem)
    then have mlt: "m < length ags" using Suc.prems by auto
    define ags1 where "ags1 = incrementLoad m (decrementLoad ov ags)"
    have l1: "length ags1 = length ags" by (simp add: ags1_def)
    have s1: "\<forall>j < length ags. capacity (ags1 ! j) = capacity (ags ! j)
         \<and> (if j = ov then currentLoad (ags ! j) - 1 else currentLoad (ags ! j))
             \<le> currentLoad (ags1 ! j)"
      unfolding ags1_def using transfer_nth[OF Suc.prems(1) mlt] by blast
    have done1: "ags' = ags1 \<Longrightarrow> ?G"
    proof -
      assume e: "ags' = ags1"
      have "\<forall>j < length ags. capacity (ags1 ! j) = capacity (ags ! j)
         \<and> (if j = ov then currentLoad (ags ! j) - int (Suc n) else currentLoad (ags ! j))
             \<le> currentLoad (ags1 ! j)"
      proof (intro allI impI)
        fix j assume j: "j < length ags"
        from j s1 have a: "capacity (ags1 ! j) = capacity (ags ! j)"
          and b: "(if j = ov then currentLoad (ags ! j) - 1 else currentLoad (ags ! j))
                    \<le> currentLoad (ags1 ! j)" by auto
        from a b
        show "capacity (ags1 ! j) = capacity (ags ! j)
         \<and> (if j = ov then currentLoad (ags ! j) - int (Suc n) else currentLoad (ags ! j))
             \<le> currentLoad (ags1 ! j)"
          by (cases "j = ov") auto
      qed
      with l1 e show ?G by simp
    qed
    have rec: "\<And>us. \<forall>u\<in>set us. u < length ags \<Longrightarrow> moveTasks n ov us ags1 = (r, ags')
                 \<Longrightarrow> ?G"
    proof -
      fix us assume us: "\<forall>u\<in>set us. u < length ags" and mv: "moveTasks n ov us ags1 = (r, ags')"
      from us l1 have "\<forall>u\<in>set us. u < length ags1" by simp
      from Suc.IH[OF _ this mv] Suc.prems(1) l1
      have h2: "length ags' = length ags1
        \<and> (\<forall>j < length ags1. capacity (ags' ! j) = capacity (ags1 ! j)
         \<and> (if j = ov then currentLoad (ags1 ! j) - int n else currentLoad (ags1 ! j))
             \<le> currentLoad (ags' ! j))" by simp
      have "\<forall>j < length ags. capacity (ags' ! j) = capacity (ags ! j)
         \<and> (if j = ov then currentLoad (ags ! j) - int (Suc n) else currentLoad (ags ! j))
             \<le> currentLoad (ags' ! j)"
      proof (intro allI impI)
        fix j assume j: "j < length ags"
        from j s1 have a: "capacity (ags1 ! j) = capacity (ags ! j)"
          and b: "(if j = ov then currentLoad (ags ! j) - 1 else currentLoad (ags ! j))
                    \<le> currentLoad (ags1 ! j)" by auto
        from j l1 h2 have c: "capacity (ags' ! j) = capacity (ags1 ! j)"
          and d: "(if j = ov then currentLoad (ags1 ! j) - int n else currentLoad (ags1 ! j))
                    \<le> currentLoad (ags' ! j)" by auto
        from a b c d
        show "capacity (ags' ! j) = capacity (ags ! j)
         \<and> (if j = ov then currentLoad (ags ! j) - int (Suc n) else currentLoad (ags ! j))
             \<le> currentLoad (ags' ! j)"
          by (cases "j = ov") auto
      qed
      with h2 l1 show ?G by simp
    qed
    show ?thesis
    proof (cases "capacity (ags1 ! m) \<le> of_int (currentLoad (ags1 ! m))")
      case full: True
      show ?thesis
      proof (cases "remove1 m underloaded = []")
        case True
        with Suc.prems(3) Inr full have "ags' = ags1" by (auto simp: ags1_def Let_def)
        then show ?thesis by (rule done1)
      next
        case False
        with Suc.prems(3) Inr full
        have mv: "moveTasks n ov (remove1 m underloaded) ags1 = (r, ags')"
          by (auto simp: ags1_def Let_def)
        have "\<forall>u\<in>set (remove1 m underloaded). u < length ags"
          using Suc.prems(2) by (auto dest: notin_set_remove1)
        then show ?thesis using mv by (rule rec)
      qed
    next
      case False
      with Suc.prems(3) Inr
      have mv: "moveTasks n ov underloaded ags1 = (r, ags')" by (auto simp: ags1_def Let_def)
      from Suc.prems(2) show ?thesis using mv by (rule rec)
    qed
  qed
qed

lemma moveTasks_subset:
  "ov < length ags \<Longrightarrow> \<forall>u \<in> set underloaded. u < length ags \<Longrightarrow>
   moveTasks n ov underloaded ags = (Inr us, ags') \<Longrightarrow> set us \<subseteq> set underloaded"
  using moveTasks_total by blast

lemma ceiling_excess: "\<lceil>of_int l - (c :: rat)\<rceil> = l - \<lfloor>c\<rfloor>"
proof -
  have "\<lceil>of_int l - c\<rceil> = - \<lfloor>c - of_int l\<rfloor>" by (simp add: ceiling_def)
  then show ?thesis by simp
qed

lemma after_own_turn:
  "min l \<lfloor>c :: rat\<rfloor> \<le> l - int (nat \<lceil>of_int l - c\<rceil>)"
  by (simp add: ceiling_excess)

lemma redistribute_lower:
  "\<forall>ov \<in> set ovl. ov < length ags \<Longrightarrow> \<forall>u \<in> set underloaded. u < length ags \<Longrightarrow>
   redistribute ovl underloaded ags = (r, ags') \<Longrightarrow>
   length ags' = length ags
   \<and> (\<forall>j < length ags. capacity (ags' ! j) = capacity (ags ! j)
         \<and> min (currentLoad (ags ! j)) \<lfloor>capacity (ags ! j)\<rfloor> \<le> currentLoad (ags' ! j))"
proof (induction ovl arbitrary: underloaded ags r ags')
  case Nil
  then show ?case by auto
next
  case (Cons ov ovs)
  let ?n = "nat \<lceil>of_int (currentLoad (ags ! ov)) - capacity (ags ! ov)\<rceil>"
  obtain r1 ags1 where m: "moveTasks ?n ov underloaded ags = (r1, ags1)"
    by (cases "moveTasks ?n ov underloaded ags") auto
  have ovlt: "ov < length ags" using Cons.prems(1) by simp
  from moveTasks_lower[OF ovlt Cons.prems(2) m]
  have l1: "length ags1 = length ags"
    and s1: "\<forall>j < length ags. capacity (ags1 ! j) = capacity (ags ! j)
         \<and> (if j = ov then currentLoad (ags ! j) - int ?n else currentLoad (ags ! j))
             \<le> currentLoad (ags1 ! j)" by auto
  have low1: "\<forall>j < length ags. capacity (ags1 ! j) = capacity (ags ! j)
         \<and> min (currentLoad (ags ! j)) \<lfloor>capacity (ags ! j)\<rfloor> \<le> currentLoad (ags1 ! j)"
  proof (intro allI impI)
    fix j assume j: "j < length ags"
    with s1 have c: "capacity (ags1 ! j) = capacity (ags ! j)"
      and l: "(if j = ov then currentLoad (ags ! j) - int ?n else currentLoad (ags ! j))
             \<le> currentLoad (ags1 ! j)" by auto
    have "min (currentLoad (ags ! j)) \<lfloor>capacity (ags ! j)\<rfloor> \<le> currentLoad (ags1 ! j)"
    proof (cases "j = ov")
      case True
      with l have "currentLoad (ags ! ov) - int ?n \<le> currentLoad (ags1 ! ov)" by simp
      moreover have "min (currentLoad (ags ! ov)) \<lfloor>capacity (ags ! ov)\<rfloor>
                      \<le> currentLoad (ags ! ov) - int ?n" by (rule after_own_turn)
      ultimately show ?thesis using True by simp
    next
      case False
      with l show ?thesis by simp
    qed
    with c show "capacity (ags1 ! j) = capacity (ags ! j)
         \<and> min (currentLoad (ags ! j)) \<lfloor>capacity (ags ! j)\<rfloor> \<le> currentLoad (ags1 ! j)"
      by simp
  qed
  show ?case
  proof (cases r1)
    case (Inl e)
    with Cons.prems(3) m have "ags' = ags1" by (simp add: Let_def)
    with l1 low1 show ?thesis by simp
  next
    case (Inr us)
    with Cons.prems(3) m have rec: "redistribute ovs us ags1 = (r, ags')" by (simp add: Let_def)
    have a: "\<forall>ov\<in>set ovs. ov < length ags1" using Cons.prems(1) l1 by simp
    from m Inr have "set us \<subseteq> set underloaded"
      using moveTasks_subset[OF ovlt Cons.prems(2)] by simp
    then have b: "\<forall>u\<in>set us. u < length ags1" using Cons.prems(2) l1 by auto
    from Cons.IH[OF a b rec]
    have l2: "length ags' = length ags1"
      and s2: "\<forall>j < length ags1. capacity (ags' ! j) = capacity (ags1 ! j)
         \<and> min (currentLoad (ags1 ! j)) \<lfloor>capacity (ags1 ! j)\<rfloor> \<le> currentLoad (ags' ! j)"
      by auto
    show ?thesis
    proof (intro conjI allI impI)
      show "length ags' = length ags" using l1 l2 by simp
    next
      fix j assume j: "j < length ags"
      with s2 l1 low1 show "capacity (ags' ! j) = capacity (ags ! j)" by simp
    next
      fix j assume j: "j < length ags"
      with low1 have a1: "capacity (ags1 ! j) = capacity (ags ! j)"
        and a2: "min (currentLoad (ags ! j)) \<lfloor>capacity (ags ! j)\<rfloor> \<le> currentLoad (ags1 ! j)"
        by auto
      from j l1 s2
      have "min (currentLoad (ags1 ! j)) \<lfloor>capacity (ags1 ! j)\<rfloor> \<le> currentLoad (ags' ! j)"
        by simp
      with a1 a2
      show "min (currentLoad (ags ! j)) \<lfloor>capacity (ags ! j)\<rfloor> \<le> currentLoad (ags' ! j)"
        by auto
    qed
  qed
qed

lemma balanceLoad_lower:
  "length (agents (snd (balanceLoad s))) = length (agents s)
   \<and> (\<forall>j < length (agents s).
         capacity (agents (snd (balanceLoad s)) ! j) = capacity (agents s ! j)
         \<and> min (currentLoad (agents s ! j)) \<lfloor>capacity (agents s ! j)\<rfloor>
             \<le> currentLoad (agents (snd (balanceLoad s)) ! j))"
proof -
  let ?ov = "filter (\<lambda>a. of_int (currentLoad (agents s ! a)) > capacity (agents s ! a))
               (sortedAgents (agents s))"
  let ?un = "filter (\<lambda>a. of_int (currentLoad (agents s ! a)) < capacity (agents s ! a))
               (sortedAgents (agents s))"
  obtain r ags' where red: "redistribute ?ov ?un (agents s) = (r, ags')"
    by (cases "redistribute ?ov ?un (agents s)") auto
  have a: "\<forall>ov\<in>set ?ov. ov < length (agents s)" by simp
  have b: "\<forall>u\<in>set ?un. u < length (agents s)" by simp
  note low = redistribute_lower[OF a b red]
  show ?thesis
  proof (cases "?ov = []")
    case True
    then show ?thesis by (simp add: balanceLoad_def Let_def)
  next
    case ov: False
    show ?thesis
    proof (cases "?un = []")
      case True
      with ov show ?thesis by (simp add: balanceLoad_def Let_def)
    next
      case False
      with ov red have "agents (snd (balanceLoad s)) = ags'"
        by (cases r) (simp_all add: balanceLoad_def Let_def)
      with low show ?thesis by simp
    qed
  qed
qed

lemma wellFormed_nth:
  "wellFormed ags = (\<forall>j < length ags. 0 \<le> currentLoad (ags ! j) \<and> 0 \<le> capacity (ags ! j))"
  by (simp add: wellFormed_def list_all_length)

lemma balanceLoad_wellFormed:
  assumes "wellFormed (agents s)"
  shows "wellFormed (agents (snd (balanceLoad s)))"
proof -
  note low = balanceLoad_lower[of s]
  have "\<forall>j < length (agents (snd (balanceLoad s))).
          0 \<le> currentLoad (agents (snd (balanceLoad s)) ! j)
          \<and> 0 \<le> capacity (agents (snd (balanceLoad s)) ! j)"
  proof (intro allI impI)
    fix j assume "j < length (agents (snd (balanceLoad s)))"
    with low have j: "j < length (agents s)" by simp
    with low have c: "capacity (agents (snd (balanceLoad s)) ! j) = capacity (agents s ! j)"
      and l: "min (currentLoad (agents s ! j)) \<lfloor>capacity (agents s ! j)\<rfloor>
               \<le> currentLoad (agents (snd (balanceLoad s)) ! j)" by auto
    from assms j have w: "0 \<le> currentLoad (agents s ! j) \<and> 0 \<le> capacity (agents s ! j)"
      by (simp add: wellFormed_nth)
    then have "0 \<le> min (currentLoad (agents s ! j)) \<lfloor>capacity (agents s ! j)\<rfloor>"
      by (intro min.boundedI) simp_all
    from this l have "0 \<le> currentLoad (agents (snd (balanceLoad s)) ! j)"
      by (rule order_trans)
    with w c show "0 \<le> currentLoad (agents (snd (balanceLoad s)) ! j)
          \<and> 0 \<le> capacity (agents (snd (balanceLoad s)) ! j)" by simp
  qed
  then show ?thesis by (simp add: wellFormed_nth)
qed

lemma wellFormed_update:
  assumes "wellFormed ags" and "i < length ags \<Longrightarrow> 0 \<le> currentLoad x \<and> 0 \<le> capacity x"
  shows "wellFormed (ags[i := x])"
proof (cases "i < length ags")
  case True
  have "set (ags[i := x]) \<subseteq> insert x (set ags)" by (rule set_update_subset_insert)
  with assms True show ?thesis by (auto simp: wellFormed_def list_all_iff)
next
  case False
  then have "length ags \<le> i" by simp
  then have "ags[i := x] = ags" by (rule list_update_beyond)
  with assms(1) show ?thesis by simp
qed

lemma incrementLoad_wellFormed: "wellFormed ags \<Longrightarrow> wellFormed (incrementLoad i ags)"
  unfolding incrementLoad_def by (rule wellFormed_update) (simp_all add: wellFormed_nth)

lemma assignTask_agents:
  "agents (snd (assignTask t a s)) = agents s
   \<or> (\<exists>i. agents (snd (assignTask t a s)) = incrementLoad i (agents s))"
  by (auto simp: assignTask_def assignExplicit_def assignAuto_def Let_def
      split: option.splits sum.splits)

lemma assignTask_wellFormed:
  "wellFormed (agents s) \<Longrightarrow> wellFormed (agents (snd (assignTask t a s)))"
  using assignTask_agents[of t a s] incrementLoad_wellFormed by auto

lemma completeTask_wellFormed:
  assumes "wellFormed (agents s)"
  shows "wellFormed (agents (snd (completeTask aid t s)))"
proof (cases "findAgent aid (agents s)")
  case None
  with assms show ?thesis by (simp add: completeTask_def)
next
  case (Some i)
  show ?thesis
  proof (cases "0 < currentLoad (agents s ! i)")
    case True
    have "wellFormed ((agents s)[i := (agents s ! i)\<lparr>currentLoad := currentLoad (agents s ! i) - 1\<rparr>])"
      using assms True by (intro wellFormed_update) (simp_all add: wellFormed_nth)
    with Some True show ?thesis by (simp add: completeTask_def decrementLoad_def Let_def)
  next
    case False
    with Some assms show ?thesis by (simp add: completeTask_def Let_def)
  qed
qed

lemma updateAgentStatus_wellFormed:
  assumes "wellFormed (agents s)"
  shows "wellFormed (agents (snd (updateAgentStatus aid st s)))"
proof (cases "findAgent aid (agents s)")
  case None
  with assms show ?thesis by (simp add: updateAgentStatus_def)
next
  case (Some i)
  have "wellFormed ((agents s)[i := (agents s ! i)\<lparr>status := st\<rparr>])"
    using assms by (intro wellFormed_update) (simp_all add: wellFormed_nth)
  with Some show ?thesis by (simp add: updateAgentStatus_def Let_def)
qed

lemma registerAgent_wellFormed:
  "0 \<le> cap \<Longrightarrow> wellFormed (agents s)
   \<Longrightarrow> wellFormed (agents (snd (registerAgent stamp rnd nm sp cap s)))"
  by (simp add: registerAgent_def Let_def wellFormed_def)

lemma perform_wellFormed:
  "wellFormed (agents s) \<Longrightarrow> nonNegativeCapacity op \<Longrightarrow> wellFormed (agents (perform s op))"
  by (cases op)
    (simp_all add: registerAgent_wellFormed assignTask_wellFormed completeTask_wellFormed
      balanceLoad_wellFormed updateAgentStatus_wellFormed)

lemma performAll_wellFormed:
  "wellFormed (agents s) \<Longrightarrow> \<forall>op \<in> set ops. nonNegativeCapacity op
   \<Longrightarrow> wellFormed (agents (performAll s ops))"
  unfolding performAll_def
  by (induction ops arbitrary: s) (simp_all add: perform_wellFormed)

lemma completeTask_at_zero:
  "findAgent aid (agents s) = Some i \<Longrightarrow> currentLoad (agents s ! i) = 0
   \<Longrightarrow> currentLoad (agents (snd (completeTask aid taskId s)) ! i) = 0"
  by (simp add: completeTask_def Let_def)

lemma whole_capacity_reached:
  assumes "c \<in> \<int>" and "\<lfloor>c :: rat\<rfloor> \<le> l"
  shows "c \<le> of_int l"
proof -
  from assms(1) obtain n where n: "c = of_int n" by (rule Ints_cases)
  with assms(2) have "n \<le> l" by simp
  then have "(of_int n :: rat) \<le> of_int l" by (simp only: of_int_le_iff)
  with n show ?thesis by simp
qed

text \<open>
  C2, as the claim has it: from a state with non-negative loads, no sequence of the five
  operations makes a load negative, and \<^verbatim>\<open>balanceLoad\<close> never drives an overloaded agent's
  load below its capacity. \<^verbatim>\<open>registerAgent\<close> takes any number as capacity. An agent
  registered with capacity \<open>-1\<close> counts as overloaded at load 0, and the pass moves one
  task from it to the other agent, which leaves it at load \<open>-1\<close>. An agent registered with
  capacity \<open>3/2\<close> takes two explicit assignments (\<open>0 \<ge> 3/2\<close> and \<open>1 \<ge> 3/2\<close> are false); its
  excess is then \<open>1/2\<close>, the loop runs once, and the pass leaves it at load 1, below its
  capacity.
\<close>

theorem C2_negative_or_fractional_capacity:
  "currentLoad (agents (performAll (registryOf [])
      [RegisterAgent ''1'' ''a'' ''A'' general (- 1),
       RegisterAgent ''2'' ''b'' ''B'' general 10,
       BalanceLoad]) ! 0) = - 1
   \<and> currentLoad (agents (performAll (registryOf [])
      [RegisterAgent ''1'' ''a'' ''A'' general (3 / 2),
       RegisterAgent ''2'' ''b'' ''B'' general 10,
       AssignTask ''t1'' (Some ''agent-1-a''),
       AssignTask ''t2'' (Some ''agent-1-a''),
       BalanceLoad]) ! 0) = 1
   \<and> capacity (agents (performAll (registryOf [])
      [RegisterAgent ''1'' ''a'' ''A'' general (3 / 2),
       RegisterAgent ''2'' ''b'' ''B'' general 10,
       AssignTask ''t1'' (Some ''agent-1-a''),
       AssignTask ''t2'' (Some ''agent-1-a''),
       BalanceLoad]) ! 0) = 3 / 2"
  by code_simp

text \<open>
  C2, amended. From a state in which no load and no capacity is negative, every sequence
  of \<^verbatim>\<open>registerAgent\<close> (with a capacity that is not negative), \<^verbatim>\<open>assignTask\<close>,
  \<^verbatim>\<open>completeTask\<close>, \<^verbatim>\<open>balanceLoad\<close> and \<^verbatim>\<open>updateAgentStatus\<close>, failing calls included, leaves
  every load non-negative. In any state, \<^verbatim>\<open>completeTask\<close> on an agent with load 0 leaves
  it at 0, and \<^verbatim>\<open>balanceLoad\<close> leaves every agent that was over its capacity at or above
  its capacity rounded down to a whole number, so at or above its capacity when that is
  a whole number.
\<close>

theorem C2_loads_stay_non_negative:
  "((\<forall>a \<in> set (agents s). 0 \<le> currentLoad a \<and> 0 \<le> capacity a)
      \<and> (\<forall>op \<in> set ops. nonNegativeCapacity op)
      \<longrightarrow> (\<forall>a \<in> set (agents (performAll s ops)). 0 \<le> currentLoad a))
   \<and> (\<forall>i. findAgent aid (agents s) = Some i \<and> currentLoad (agents s ! i) = 0
         \<longrightarrow> currentLoad (agents (snd (completeTask aid taskId s)) ! i) = 0)
   \<and> (\<forall>j < length (agents s). capacity (agents s ! j) < of_int (currentLoad (agents s ! j))
         \<longrightarrow> \<lfloor>capacity (agents s ! j)\<rfloor> \<le> currentLoad (agents (snd (balanceLoad s)) ! j)
             \<and> (capacity (agents s ! j) \<in> \<int>
                  \<longrightarrow> capacity (agents s ! j)
                        \<le> of_int (currentLoad (agents (snd (balanceLoad s)) ! j))))"
proof (intro conjI allI impI ballI)
  fix a
  assume h: "(\<forall>a \<in> set (agents s). 0 \<le> currentLoad a \<and> 0 \<le> capacity a)
      \<and> (\<forall>op \<in> set ops. nonNegativeCapacity op)"
    and a: "a \<in> set (agents (performAll s ops))"
  from h have "wellFormed (agents s)" by (simp add: wellFormed_def list_all_iff)
  with h have "wellFormed (agents (performAll s ops))" by (simp add: performAll_wellFormed)
  with a show "0 \<le> currentLoad a" by (simp add: wellFormed_def list_all_iff)
next
  fix i assume "findAgent aid (agents s) = Some i \<and> currentLoad (agents s ! i) = 0"
  then show "currentLoad (agents (snd (completeTask aid taskId s)) ! i) = 0"
    by (simp add: completeTask_at_zero)
next
  fix j assume j: "j < length (agents s)"
    and o: "capacity (agents s ! j) < of_int (currentLoad (agents s ! j))"
  from o have "\<lfloor>capacity (agents s ! j)\<rfloor> \<le> currentLoad (agents s ! j)"
    by (simp add: floor_le_iff)
  moreover from balanceLoad_lower[of s] j
  have "min (currentLoad (agents s ! j)) \<lfloor>capacity (agents s ! j)\<rfloor>
          \<le> currentLoad (agents (snd (balanceLoad s)) ! j)" by simp
  ultimately
  show fl: "\<lfloor>capacity (agents s ! j)\<rfloor> \<le> currentLoad (agents (snd (balanceLoad s)) ! j)"
    by simp
  assume "capacity (agents s ! j) \<in> \<int>"
  then show "capacity (agents s ! j) \<le> of_int (currentLoad (agents (snd (balanceLoad s)) ! j))"
    using fl by (rule whole_capacity_reached)
qed

theorem C2_loads_stay_non_negative_witness:
  "list_all (\<lambda>a. 0 \<le> currentLoad a)
     (agents (performAll (registryOf [])
        [RegisterAgent ''1'' ''a'' ''A'' general 0,
         RegisterAgent ''2'' ''b'' ''B'' general (3 / 2),
         AssignTask ''t1'' (Some ''agent-2-b''),
         AssignTask ''t2'' (Some ''agent-2-b''),
         BalanceLoad,
         CompleteTask ''agent-1-a'' ''t'']))
   \<and> currentLoad (agents (snd (completeTask ''x'' ''t''
        (registryOf [agentWith ''x'' RUNNING general 1 0]))) ! 0) = 0
   \<and> 2 \<le> currentLoad (agents (snd (balanceLoad
        (registryOf [agentWith ''a'' RUNNING general 2 4, agentWith ''b'' RUNNING general 3 0])))
          ! 0)
   \<and> 1 \<le> currentLoad (agents (snd (balanceLoad
        (registryOf [agentWith ''a'' RUNNING general (3 / 2) 2,
                     agentWith ''b'' RUNNING general 3 0]))) ! 0)"
proof -
  let ?ops = "[RegisterAgent ''1'' ''a'' ''A'' general 0,
         RegisterAgent ''2'' ''b'' ''B'' general (3 / 2),
         AssignTask ''t1'' (Some ''agent-2-b''),
         AssignTask ''t2'' (Some ''agent-2-b''),
         BalanceLoad,
         CompleteTask ''agent-1-a'' ''t'']"
  let ?s1 = "registryOf [agentWith ''x'' RUNNING general 1 0]"
  let ?s2 = "registryOf [agentWith ''a'' RUNNING general 2 4, agentWith ''b'' RUNNING general 3 0]"
  let ?s3 = "registryOf [agentWith ''a'' RUNNING general (3 / 2) 2,
                         agentWith ''b'' RUNNING general 3 0]"
  have "(\<forall>a \<in> set (agents (registryOf [])). 0 \<le> currentLoad a \<and> 0 \<le> capacity a)
      \<and> (\<forall>op \<in> set ?ops. nonNegativeCapacity op)" by (simp add: registryOf_def)
  with C2_loads_stay_non_negative [of "registryOf []" ?ops]
  have 1: "list_all (\<lambda>a. 0 \<le> currentLoad a) (agents (performAll (registryOf []) ?ops))"
    by (simp add: list_all_iff)
  have "findAgent ''x'' (agents ?s1) = Some 0 \<and> currentLoad (agents ?s1 ! 0) = 0"
    by (simp add: registryOf_def agentWith_def)
  with C2_loads_stay_non_negative [of ?s1 _ "''x''" "''t''"]
  have 2: "currentLoad (agents (snd (completeTask ''x'' ''t'' ?s1)) ! 0) = 0" by blast
  have "0 < length (agents ?s2)
        \<and> capacity (agents ?s2 ! 0) < of_int (currentLoad (agents ?s2 ! 0))"
    by (simp add: registryOf_def agentWith_def)
  with C2_loads_stay_non_negative [of ?s2]
  have "\<lfloor>capacity (agents ?s2 ! 0)\<rfloor> \<le> currentLoad (agents (snd (balanceLoad ?s2)) ! 0)"
    by blast
  then have 3: "2 \<le> currentLoad (agents (snd (balanceLoad ?s2)) ! 0)"
    by (simp add: registryOf_def agentWith_def)
  have "0 < length (agents ?s3)
        \<and> capacity (agents ?s3 ! 0) < of_int (currentLoad (agents ?s3 ! 0))"
    by (simp add: registryOf_def agentWith_def)
  with C2_loads_stay_non_negative [of ?s3]
  have "\<lfloor>capacity (agents ?s3 ! 0)\<rfloor> \<le> currentLoad (agents (snd (balanceLoad ?s3)) ! 0)"
    by blast
  moreover have "\<lfloor>3 / 2 :: rat\<rfloor> = 1" by (rule floor_unique) simp_all
  ultimately have 4: "1 \<le> currentLoad (agents (snd (balanceLoad ?s3)) ! 0)"
    by (simp add: registryOf_def agentWith_def)
  from 1 2 3 4 show ?thesis by simp
qed

end
